theory Spec2Isabelle
  imports Main "HOL-Library.Multiset" "HOL-Library.Sublist"
begin

section \<open>The bilibili videos widget: data model\<close>

text \<open>
  The development follows \<^verbatim>\<open>internal/glance/widget-bilibili-videos.go\<close>.
  Go strings are byte sequences and are modelled as \<^typ>\<open>string\<close>; a nil slice and an
  empty slice are both the empty list (the code only ever takes their length). The
  field \<^verbatim>\<open>Title\<close> occurs in three structs; it keeps its name for a feed item and
  is \<open>FeedTitle\<close> for a response and \<open>VideoTitle\<close> for an entry.
\<close>

text \<open>
  A \<^verbatim>\<open>time.Time\<close> value: the instant it denotes (nanoseconds since the epoch) and
  the zone it is displayed in. \<^verbatim>\<open>After\<close> compares instants only.
\<close>

record go_time =
  instant :: int
  zone :: string

definition After :: "go_time \<Rightarrow> go_time \<Rightarrow> bool" where
  "After t u = (instant u < instant t)"

text \<open>An opaque Go \<^verbatim>\<open>error\<close> value of a collaborator, kept as its message.\<close>

type_synonym go_error = string

text \<open>The run-time panics the code of this file can raise.\<close>

datatype panic =
    IndexOutOfRange nat nat
  | SliceBoundsOutOfRange int nat

text \<open>Indexing a slice, \<^verbatim>\<open>xs[i]\<close>: a panic outside the range.\<close>

definition index :: "'a list \<Rightarrow> nat \<Rightarrow> panic + 'a" where
  "index xs i = (if i < length xs then Inr (xs ! i) else Inl (IndexOutOfRange i (length xs)))"

record feed_author =
  Name :: string

record feed_item =
  ID :: string
  URL :: string
  Title :: string
  ContentHTML :: string
  DatePublished :: go_time
  Authors :: "feed_author list"

record bilibiliFeedResponseJson =
  Version :: string
  FeedTitle :: string
  HomePageURL :: string
  Description :: string
  Language :: string
  Items :: "feed_item list"

record bilibiliVideo =
  ThumbnailUrl :: string
  VideoTitle :: string
  Url :: string
  Author :: string
  AuthorUrl :: string
  TimePosted :: go_time

type_synonym bilibiliVideoList = "bilibiliVideo list"

text \<open>
  The error returned by the aggregation. \<^verbatim>\<open>errNoContent\<close> and
  \<^verbatim>\<open>errPartialContent\<close> are sentinel errors of the package; the two wrapped forms
  carry what \<^verbatim>\<open>fmt.Errorf\<close> formats into them.
\<close>

datatype fetch_error =
    NoContentWrapped go_error
  | NoContent
  | PartialContent nat

section \<open>The image pattern\<close>

text \<open>
  The pattern \<^verbatim>\<open><img[^>]+src="([^"]+)"\<close> is a sequence of literal characters and of
  greedy repetitions \<^verbatim>\<open>[^c]+\<close>. A matcher with the priorities of Go's
  \<^verbatim>\<open>regexp\<close> package (leftmost match, a greedy repetition prefers the longest run
  and gives characters back one at a time) returns the text consumed by each atom.
  \<^verbatim>\<open>[^c]\<close> is a character class on code points; since neither \<^verbatim>\<open>>\<close> nor the
  double quote occurs inside a multi-byte UTF-8 sequence, the byte-wise reading consumes
  the same text.
\<close>

datatype atom = Lit char | PlusNot char

function match_atoms :: "atom list \<Rightarrow> string \<Rightarrow> string list option"
  and try_plus :: "atom list \<Rightarrow> string \<Rightarrow> nat \<Rightarrow> string list option" where
  "match_atoms [] s = Some []"
| "match_atoms (Lit c # as) [] = None"
| "match_atoms (Lit c # as) (x # xs) =
     (if x = c then map_option ((#) [x]) (match_atoms as xs) else None)"
| "match_atoms (PlusNot c # as) s = try_plus as s (length (takeWhile (\<lambda>x. x \<noteq> c) s))"
| "try_plus as s 0 = None"
| "try_plus as s (Suc k) =
     (case match_atoms as (drop (Suc k) s) of
        Some segs \<Rightarrow> Some (take (Suc k) s # segs)
      | None \<Rightarrow> try_plus as s k)"
  by pat_completeness auto
termination
  by (relation "measures [\<lambda>x. case x of Inl (as, s) \<Rightarrow> 2 * length as
                                        | Inr (as, s, k) \<Rightarrow> 2 * length as + 1,
                            \<lambda>x. case x of Inl (as, s) \<Rightarrow> 0 | Inr (as, s, k) \<Rightarrow> k]")
     auto

definition dquote :: char where
  "dquote = CHR 0x22"

definition re_prefix :: "atom list" where
  "re_prefix = map Lit ''<img'' @ [PlusNot (CHR ''>'')] @ map Lit (''src='' @ [dquote])"

definition re_group :: "atom list" where
  "re_group = [PlusNot dquote]"

definition re_suffix :: "atom list" where
  "re_suffix = [Lit dquote]"

text \<open>
  One match at the start of \<open>s\<close>: the whole matched text and the text of the
  capture group, as the two-element submatch slice of the library.
\<close>

definition submatch :: "string \<Rightarrow> string list option" where
  "submatch s =
     (case match_atoms (re_prefix @ re_group @ re_suffix) s of
        None \<Rightarrow> None
      | Some segs \<Rightarrow>
          Some [concat segs, concat (take (length re_group) (drop (length re_prefix) segs))])"

text \<open>
  \<^verbatim>\<open>re.FindAllStringSubmatch(s, -1)\<close>: all successive non-overlapping matches, each
  search starting where the previous match ended. The pattern matches no empty text, so
  a search position always moves forward.
\<close>

fun FindAllStringSubmatch :: "string \<Rightarrow> string list list" where
  "FindAllStringSubmatch [] = (case submatch [] of None \<Rightarrow> [] | Some m \<Rightarrow> [m])"
| "FindAllStringSubmatch (x # xs) =
     (case submatch (x # xs) of
        None \<Rightarrow> FindAllStringSubmatch xs
      | Some m \<Rightarrow> m # FindAllStringSubmatch (drop (length (hd m) - 1) xs))"

section \<open>Item extraction\<close>

text \<open>The loop that collects the captured URLs of the matches.\<close>

fun collect_imageURLs :: "string list list \<Rightarrow> string list \<Rightarrow> string list" where
  "collect_imageURLs [] imageURLs = imageURLs"
| "collect_imageURLs (m # ms) imageURLs =
     collect_imageURLs ms (if length m > 1 then imageURLs @ [m ! 1] else imageURLs)"

text \<open>
  The loop \<^verbatim>\<open>for i, author := range v.Authors { authorNames[i] = author.Name }\<close>
  on a slice made with the length of \<^verbatim>\<open>v.Authors\<close>.
\<close>

fun fill_authorNames :: "nat \<Rightarrow> feed_author list \<Rightarrow> string list \<Rightarrow> string list" where
  "fill_authorNames i [] authorNames = authorNames"
| "fill_authorNames i (a # as) authorNames = fill_authorNames (Suc i) as (authorNames[i := Name a])"

text \<open>
  \<^verbatim>\<open>strings.Join\<close>: the empty string for no element, the element itself for one,
  otherwise the first element followed by separator and element for each further one.
\<close>

definition strings_Join :: "string list \<Rightarrow> string \<Rightarrow> string" where
  "strings_Join elems sep =
     (case elems of
        [] \<Rightarrow> []
      | [e] \<Rightarrow> e
      | e # es \<Rightarrow> foldl (\<lambda>b s. b @ sep @ s) e es)"

text \<open>
  The body of the loop over the items of one response: the entry appended for item \<open>v\<close>,
  or the panic of \<^verbatim>\<open>imageURLs[0]\<close>.
\<close>

definition make_video :: "string \<Rightarrow> feed_item \<Rightarrow> panic + bilibiliVideo" where
  "make_video imageProxy v =
     (let matches = FindAllStringSubmatch (ContentHTML v);
          imageURLs = collect_imageURLs matches [];
          authorNames = fill_authorNames 0 (Authors v) (replicate (length (Authors v)) [])
      in case index imageURLs 0 of
           Inl p \<Rightarrow> Inl p
         | Inr u \<Rightarrow>
             Inr \<lparr>ThumbnailUrl = imageProxy @ u,
                  VideoTitle = Title v,
                  Url = URL v,
                  Author = strings_Join authorNames '', '',
                  AuthorUrl = URL v,
                  TimePosted = DatePublished v\<rparr>)"

fun append_items :: "string \<Rightarrow> feed_item list \<Rightarrow> bilibiliVideoList \<Rightarrow> panic + bilibiliVideoList" where
  "append_items imageProxy [] videos = Inr videos"
| "append_items imageProxy (v # vs) videos =
     (case make_video imageProxy v of
        Inl p \<Rightarrow> Inl p
      | Inr e \<Rightarrow> append_items imageProxy vs (videos @ [e]))"

section \<open>Sorting\<close>

text \<open>
  \<^verbatim>\<open>sort.Slice\<close> with the comparison \<open>lt\<close> as its \<^verbatim>\<open>less\<close>. The library sorts a slice of at most
  twelve elements by the insertion sort below (element \<open>i\<close> is swapped towards the front
  while it is less than its left neighbour) and a longer one by a quicksort that is
  not stable; both return a permutation in which no element is less than an earlier
  one. The insertion sort stands for the library at every length, so beyond twelve
  elements the order among entries of equal instant is this model's and not the
  library's; nothing below speaks of that order. The sorted front part is kept
  reversed, its last element first.
\<close>

fun insert_back :: "('a \<Rightarrow> 'a \<Rightarrow> bool) \<Rightarrow> 'a \<Rightarrow> 'a list \<Rightarrow> 'a list" where
  "insert_back lt x [] = [x]"
| "insert_back lt x (y # ys) =
     (if lt x y then y # insert_back lt x ys else x # y # ys)"

definition sort_Slice :: "('a \<Rightarrow> 'a \<Rightarrow> bool) \<Rightarrow> 'a list \<Rightarrow> 'a list" where
  "sort_Slice lt xs = rev (foldl (\<lambda>front x. insert_back lt x front) [] xs)"

definition sortByNewest :: "bilibiliVideoList \<Rightarrow> bilibiliVideoList" where
  "sortByNewest v = sort_Slice (\<lambda>a b. After (TimePosted a) (TimePosted b)) v"

section \<open>The aggregation\<close>

text \<open>
  \<^verbatim>\<open>http.NewRequest\<close> and the worker pool (\<^verbatim>\<open>newJob\<close>, \<^verbatim>\<open>workerPoolDo\<close> with
  the JSON decoding task) are declared outside this file and are parameters:
  \<open>NewRequest method url\<close> is the request, or \<open>None\<close> for the nil request returned
  with an error; \<open>workerPoolDo requests\<close> is the triple of responses, per-request
  errors and the error of the pool itself.
\<close>

type_synonym 'r pool =
  "'r option list \<Rightarrow> bilibiliFeedResponseJson list \<times> go_error option list \<times> go_error option"

fun build_requests :: "(string \<Rightarrow> string \<Rightarrow> 'r option) \<Rightarrow> string list \<Rightarrow> 'r option list \<Rightarrow> 'r option list" where
  "build_requests NewRequest [] requests = requests"
| "build_requests NewRequest (feedUrl # urls) requests =
     build_requests NewRequest urls (requests @ [NewRequest ''GET'' feedUrl])"

record fetch_state =
  videos :: bilibiliVideoList
  failed :: nat

text \<open>
  One round of \<^verbatim>\<open>for i := range responses\<close>. The call of \<^verbatim>\<open>slog.Error\<close> writes a
  log record and leaves the state alone; its arguments are evaluated, and
  \<^verbatim>\<open>RSSHubUrls[i]\<close> is an indexing like any other.
\<close>

definition source_step ::
  "string list \<Rightarrow> string \<Rightarrow> bilibiliFeedResponseJson list \<Rightarrow> go_error option list \<Rightarrow>
   nat \<Rightarrow> fetch_state \<Rightarrow> panic + fetch_state" where
  "source_step RSSHubUrls imageProxy responses errs i st =
     (case index errs i of
        Inl p \<Rightarrow> Inl p
      | Inr (Some e) \<Rightarrow>
          (case index RSSHubUrls i of
             Inl p \<Rightarrow> Inl p
           | Inr u \<Rightarrow> Inr (st\<lparr>failed := failed st + 1\<rparr>))
      | Inr None \<Rightarrow>
          (case index responses i of
             Inl p \<Rightarrow> Inl p
           | Inr response \<Rightarrow>
               (case append_items imageProxy (Items response) (videos st) of
                  Inl p \<Rightarrow> Inl p
                | Inr vs \<Rightarrow> Inr (st\<lparr>videos := vs\<rparr>))))"

fun process_sources ::
  "string list \<Rightarrow> string \<Rightarrow> bilibiliFeedResponseJson list \<Rightarrow> go_error option list \<Rightarrow>
   nat list \<Rightarrow> fetch_state \<Rightarrow> panic + fetch_state" where
  "process_sources RSSHubUrls imageProxy responses errs [] st = Inr st"
| "process_sources RSSHubUrls imageProxy responses errs (i # is) st =
     (case source_step RSSHubUrls imageProxy responses errs i st of
        Inl p \<Rightarrow> Inl p
      | Inr st' \<Rightarrow> process_sources RSSHubUrls imageProxy responses errs is st')"

definition fetchBilibiliChannelUploads ::
  "(string \<Rightarrow> string \<Rightarrow> 'r option) \<Rightarrow> 'r pool \<Rightarrow> string list \<Rightarrow> string \<Rightarrow> bool \<Rightarrow> string \<Rightarrow>
   panic + (bilibiliVideoList \<times> fetch_error option)" where
  "fetchBilibiliChannelUploads NewRequest workerPoolDo RSSHubUrls videoUrlTemplate includeShorts imageProxy =
     (let requests = build_requests NewRequest RSSHubUrls [] in
      case workerPoolDo requests of (responses, errs, err) \<Rightarrow>
        (case err of
           Some e \<Rightarrow> Inr ([], Some (NoContentWrapped e))
         | None \<Rightarrow>
             (case process_sources RSSHubUrls imageProxy responses errs [0..<length responses]
                     \<lparr>videos = [], failed = 0\<rparr> of
                Inl p \<Rightarrow> Inl p
              | Inr st \<Rightarrow>
                  if length (videos st) = 0 then Inr ([], Some NoContent)
                  else let sorted_videos = sortByNewest (videos st) in
                    if failed st > 0 then Inr (sorted_videos, Some (PartialContent (failed st)))
                    else Inr (sorted_videos, None))))"

section \<open>The widget\<close>

text \<open>
  The fields of the widget that this file declares. The embedded \<^verbatim>\<open>widgetBase\<close>
  (title, cache duration, error and notice) is declared elsewhere; the code here reads
  none of its fields. Go's \<^verbatim>\<open>int\<close> fields are only compared with constants and
  lengths, never computed with, and are integers here.
\<close>

record bilibiliVideosWidget =
  Videos :: bilibiliVideoList
  VideoUrlTemplate :: string
  Style :: string
  CollapseAfter :: int
  CollapseAfterRows :: int
  RSSHubUrls :: "string list"
  Limit :: int
  IncludeShorts :: bool
  ImageProxy :: string

definition initialize :: "bilibiliVideosWidget \<Rightarrow> bilibiliVideosWidget" where
  "initialize widget =
     (let w1 = (if Limit widget \<le> 0 then widget\<lparr>Limit := 25\<rparr> else widget);
          w2 = (if CollapseAfterRows w1 = 0 \<or> CollapseAfterRows w1 < -1
                then w1\<lparr>CollapseAfterRows := 4\<rparr> else w1);
          w3 = (if CollapseAfter w2 = 0 \<or> CollapseAfter w2 < -1
                then w2\<lparr>CollapseAfter := 7\<rparr> else w2)
      in if ImageProxy w3 = [] then w3\<lparr>ImageProxy := ''//wsrv.nl/?url=''\<rparr> else w3)"

text \<open>The slice expression \<^verbatim>\<open>xs[:n]\<close> for a slice whose capacity is its length or more.\<close>

definition slice_to :: "'a list \<Rightarrow> int \<Rightarrow> nat \<Rightarrow> panic + 'a list" where
  "slice_to xs n capacity =
     (if n < 0 \<or> int capacity < n then Inl (SliceBoundsOutOfRange n capacity)
      else Inr (take (nat n) xs))"

text \<open>
  \<^verbatim>\<open>update\<close>. The method \<^verbatim>\<open>canContinueUpdateAfterHandlingErr\<close> belongs to the
  embedded \<^verbatim>\<open>widgetBase\<close> and is a parameter: its verdict on the returned error.
\<close>

definition update ::
  "(string \<Rightarrow> string \<Rightarrow> 'r option) \<Rightarrow> 'r pool \<Rightarrow> (fetch_error option \<Rightarrow> bool) \<Rightarrow>
   bilibiliVideosWidget \<Rightarrow> panic + bilibiliVideosWidget" where
  "update NewRequest workerPoolDo canContinueUpdateAfterHandlingErr widget =
     (case fetchBilibiliChannelUploads NewRequest workerPoolDo (RSSHubUrls widget)
             (VideoUrlTemplate widget) (IncludeShorts widget) (ImageProxy widget) of
        Inl p \<Rightarrow> Inl p
      | Inr (uploads, err) \<Rightarrow>
          if \<not> canContinueUpdateAfterHandlingErr err then Inr widget
          else if int (length uploads) > Limit widget then
            (case slice_to uploads (Limit widget) (length uploads) of
               Inl p \<Rightarrow> Inl p
             | Inr vs \<Rightarrow> Inr (widget\<lparr>Videos := vs\<rparr>))
          else Inr (widget\<lparr>Videos := uploads\<rparr>))"

section \<open>Notions used in the statements\<close>

text \<open>
  What source \<open>i\<close> adds to the collection: the outcome of the extraction for each
  of its items when its error slot is empty, nothing when it is set.
\<close>

definition contribution ::
  "string \<Rightarrow> bilibiliFeedResponseJson list \<Rightarrow> go_error option list \<Rightarrow> nat \<Rightarrow> (panic + bilibiliVideo) list" where
  "contribution imageProxy responses errs i =
     (if errs ! i = None then map (make_video imageProxy) (Items (responses ! i)) else [])"

text \<open>The entries of all sources, in the order of the sources.\<close>

definition merged_entries ::
  "string \<Rightarrow> bilibiliFeedResponseJson list \<Rightarrow> go_error option list \<Rightarrow> (panic + bilibiliVideo) list" where
  "merged_entries imageProxy responses errs =
     concat (map (contribution imageProxy responses errs) [0..<length responses])"

text \<open>The number of sources among the first \<open>n\<close> whose error slot is set.\<close>

definition failed_sources :: "go_error option list \<Rightarrow> nat \<Rightarrow> nat" where
  "failed_sources errs n = length (filter (\<lambda>i. errs ! i \<noteq> None) [0..<n])"

text \<open>
  What the pattern stands for, said without the matcher: each literal consumes itself,
  and \<^verbatim>\<open>[^c]+\<close> consumes a non-empty text free of \<open>c\<close>.
\<close>

fun atom_ok :: "atom \<Rightarrow> string \<Rightarrow> bool" where
  "atom_ok (Lit c) seg = (seg = [c])"
| "atom_ok (PlusNot c) seg = (seg \<noteq> [] \<and> c \<notin> set seg)"

text \<open>
  An image-tag source attribute at the start of \<open>s\<close>: the text \<^verbatim>\<open><img\<close>, a
  non-empty \<open>gap\<close> without \<^verbatim>\<open>>\<close>, the text \<^verbatim>\<open>src="\<close>, a non-empty \<open>url\<close>
  without double quote, and the closing double quote, followed by anything.
\<close>

definition img_src :: "string \<Rightarrow> string \<Rightarrow> string \<Rightarrow> bool" where
  "img_src s gap url \<longleftrightarrow>
     gap \<noteq> [] \<and> CHR ''>'' \<notin> set gap \<and> url \<noteq> [] \<and> dquote \<notin> set url \<and>
     prefix (''<img'' @ gap @ ''src='' @ [dquote] @ url @ [dquote]) s"

section \<open>A run with three sources\<close>

text \<open>
  Three sources, the second of which has a malformed URL and fails; the first yields two
  items and the third one item. The worker pool answers with fixed responses, and
  \<open>scenario_canContinue\<close> continues unless the error is a no-content error.
\<close>

definition img_tag :: "string \<Rightarrow> string" where
  "img_tag u = ''<img src='' @ [dquote] @ u @ [dquote] @ ''>''"

definition scenario_item :: "string \<Rightarrow> string \<Rightarrow> int \<Rightarrow> feed_item" where
  "scenario_item name body t =
     \<lparr>ID = name, URL = ''https://www.bilibili.com/video/'' @ name, Title = name,
      ContentHTML = body, DatePublished = \<lparr>instant = t, zone = ''UTC''\<rparr>,
      Authors = [\<lparr>Name = ''Ann''\<rparr>, \<lparr>Name = ''Bob''\<rparr>]\<rparr>"

definition scenario_feed :: "feed_item list \<Rightarrow> bilibiliFeedResponseJson" where
  "scenario_feed its =
     \<lparr>Version = ''1.1'', FeedTitle = ''feed'', HomePageURL = [], Description = [],
      Language = ''zh-cn'', Items = its\<rparr>"

definition scenario_urls :: "string list" where
  "scenario_urls = [''https://hub/a'', ''::bad'', ''https://hub/c'']"

definition scenario_NewRequest :: "string \<Rightarrow> string \<Rightarrow> string option" where
  "scenario_NewRequest method url = (if url = ''::bad'' then None else Some url)"

definition scenario_responses :: "bilibiliFeedResponseJson list" where
  "scenario_responses =
     [scenario_feed [scenario_item ''a1'' (img_tag ''a1.jpg'' @ img_tag ''x.jpg'') 10,
                     scenario_item ''a2'' (''<p>'' @ img_tag ''a2.jpg'') 9],
      scenario_feed [],
      scenario_feed [scenario_item ''c1'' (img_tag ''c1.jpg'') 11]]"

definition scenario_errs :: "go_error option list" where
  "scenario_errs = [None, Some ''nil request'', None]"

definition scenario_pool :: "string pool" where
  "scenario_pool requests = (scenario_responses, scenario_errs, None)"

text \<open>One source whose only item has no image in its body, and two sources without items.\<close>

definition no_image_pool :: "string pool" where
  "no_image_pool requests =
     ([scenario_feed [scenario_item ''n1'' ''<p>no image</p>'' 5]], [None], None)"

definition empty_pool :: "string pool" where
  "empty_pool requests = ([scenario_feed [], scenario_feed []], [None, None], None)"

text \<open>
  Three sources again: one with an item, one that failed, and one whose item has no
  image in its body.
\<close>

definition mixed_urls :: "string list" where
  "mixed_urls = [''https://hub/a'', ''https://hub/b'', ''https://hub/n'']"

definition mixed_pool :: "string pool" where
  "mixed_pool requests =
     ([scenario_feed [scenario_item ''c1'' (img_tag ''c1.jpg'') 11],
       scenario_feed [],
       scenario_feed [scenario_item ''n1'' ''<p>no image</p>'' 5]],
      [None, Some ''timeout'', None],
      None)"

text \<open>
  A body of two image tags, the first with the character \<^verbatim>\<open>>\<close> inside its
  \<^verbatim>\<open>alt\<close> attribute: \<^verbatim>\<open><img alt=">" src="x.jpg"><img src="y.jpg">\<close>; and a body of
  one image tag with a second attribute ending in \<^verbatim>\<open>src\<close>:
  \<^verbatim>\<open><img src="real.jpg" data-src="lazy.jpg">\<close>.
\<close>

definition first_tag_x :: string where
  "first_tag_x = ''<img alt='' @ [dquote] @ ''>'' @ [dquote] @ '' src='' @ [dquote] @ ''x.jpg'' @ [dquote] @ ''>''"

definition two_tags_body :: string where
  "two_tags_body = first_tag_x @ img_tag ''y.jpg''"

definition lazy_tag_body :: string where
  "lazy_tag_body =
     ''<img src='' @ [dquote] @ ''real.jpg'' @ [dquote] @ '' data-src='' @ [dquote] @ ''lazy.jpg'' @ [dquote] @ ''>''"



definition scenario_video :: "string \<Rightarrow> int \<Rightarrow> bilibiliVideo" where
  "scenario_video name t =
     \<lparr>ThumbnailUrl = ''//wsrv.nl/?url='' @ name @ ''.jpg'', VideoTitle = name,
      Url = ''https://www.bilibili.com/video/'' @ name, Author = ''Ann, Bob'',
      AuthorUrl = ''https://www.bilibili.com/video/'' @ name,
      TimePosted = \<lparr>instant = t, zone = ''UTC''\<rparr>\<rparr>"

definition scenario_canContinue :: "fetch_error option \<Rightarrow> bool" where
  "scenario_canContinue err =
     (case err of None \<Rightarrow> True | Some (PartialContent k) \<Rightarrow> True | Some e \<Rightarrow> False)"

definition scenario_widget :: bilibiliVideosWidget where
  "scenario_widget =
     \<lparr>Videos = [], VideoUrlTemplate = [], Style = ''grid-cards'', CollapseAfter = 0,
      CollapseAfterRows = 0, RSSHubUrls = scenario_urls, Limit = 2, IncludeShorts = False,
      ImageProxy = []\<rparr>"

section \<open>Request building, author names and joining\<close>


lemma fill_authorNames_map:
  "i + length as \<le> length names \<Longrightarrow>
   fill_authorNames i as names = take i names @ map Name as @ drop (i + length as) names"
proof (induction as arbitrary: i names)
  case Nil
  then show ?case by simp
next
  case (Cons a as)
  have "fill_authorNames (Suc i) as (names[i := Name a]) =
        take (Suc i) (names[i := Name a]) @ map Name as @ drop (Suc i + length as) (names[i := Name a])"
    using Cons.prems by (intro Cons.IH) simp
  moreover have "take (Suc i) (names[i := Name a]) = take i names @ [Name a]"
    using Cons.prems by (simp add: take_Suc_conv_app_nth)
  ultimately show ?case by simp
qed

lemma authorNames_eq:
  "fill_authorNames 0 as (replicate (length as) []) = map Name as"
  using fill_authorNames_map [of 0 as "replicate (length as) []"] by simp

lemma foldl_sep: "foldl (\<lambda>b s. b @ sep @ s) e es = e @ concat (map ((@) sep) es)"
  by (induction es arbitrary: e) simp_all

lemma make_video_fields:
  assumes "make_video imageProxy v = Inr e"
  shows "VideoTitle e = Title v" "Url e = URL v" "AuthorUrl e = URL v"
    "TimePosted e = DatePublished v"
    "Author e = strings_Join (map Name (Authors v)) '', ''"
  using assms by (auto simp: make_video_def Let_def authorNames_eq split: sum.splits)

lemma strings_Join_Cons: "strings_Join (e # es) sep = e @ concat (map ((@) sep) es)"
  by (cases es) (simp_all add: strings_Join_def foldl_sep)

section \<open>Sorting\<close>

lemma insert_back_mset: "mset (insert_back lt x front) = add_mset x (mset front)"
  by (induction front) simp_all

lemma insert_back_sorted:
  fixes key :: "'a \<Rightarrow> int"
  assumes "sorted_wrt (\<lambda>a b. key a \<le> key b) front"
  shows "sorted_wrt (\<lambda>a b. key a \<le> key b) (insert_back (\<lambda>a b. key b < key a) x front)"
  using assms
proof (induction front)
  case Nil
  then show ?case by simp
next
  case (Cons y ys)
  have "set (insert_back (\<lambda>a b. key b < key a) x ys) = insert x (set ys)"
    using insert_back_mset [of "\<lambda>a b. key b < key a" x ys]
    by (metis set_mset_add_mset_insert set_mset_mset)
  with Cons show ?case by auto
qed

lemma foldl_insert_back_mset:
  "mset (foldl (\<lambda>front x. insert_back lt x front) acc xs) = mset acc + mset xs"
  by (induction xs arbitrary: acc) (simp_all add: insert_back_mset)

lemma foldl_insert_back_sorted:
  fixes key :: "'a \<Rightarrow> int"
  shows "sorted_wrt (\<lambda>a b. key a \<le> key b) acc \<Longrightarrow>
    sorted_wrt (\<lambda>a b. key a \<le> key b) (foldl (\<lambda>front x. insert_back (\<lambda>a b. key b < key a) x front) acc xs)"
  by (induction xs arbitrary: acc) (simp_all add: insert_back_sorted)

lemma sort_Slice_mset: "mset (sort_Slice lt xs) = mset xs"
  by (simp add: sort_Slice_def foldl_insert_back_mset)

lemma sort_Slice_sorted:
  fixes key :: "'a \<Rightarrow> int"
  shows "sorted_wrt (\<lambda>a b. key b \<le> key a) (sort_Slice (\<lambda>a b. key b < key a) xs)"
  using foldl_insert_back_sorted [of key "[]" xs]
  by (simp add: sort_Slice_def sorted_wrt_rev)

lemma sortByNewest_mset: "mset (sortByNewest v) = mset v"
  by (simp add: sortByNewest_def sort_Slice_mset)

lemma sortByNewest_length: "length (sortByNewest v) = length v"
  using sortByNewest_mset [of v] by (metis size_mset)

lemma sortByNewest_Nil_iff: "sortByNewest v = [] \<longleftrightarrow> v = []"
  using sortByNewest_length [of v] by (metis length_0_conv)

lemma sortByNewest_sorted:
  "sorted_wrt (\<lambda>a b. instant (TimePosted b) \<le> instant (TimePosted a)) (sortByNewest v)"
  using sort_Slice_sorted [of "\<lambda>a. instant (TimePosted a)" v]
  by (simp add: sortByNewest_def After_def)

section \<open>The loop over the sources\<close>

lemma append_items_Inr:
  "append_items imageProxy items acc = Inr vs \<Longrightarrow>
   map Inr vs = map Inr acc @ map (make_video imageProxy) items"
proof (induction items arbitrary: acc)
  case Nil
  then show ?case by simp
next
  case (Cons v items)
  then show ?case by (auto split: sum.splits)
qed

lemma source_step_Inr:
  assumes "source_step urls imageProxy responses errs i st = Inr st'"
  shows "i < length errs"
    and "map Inr (videos st') = map Inr (videos st) @ contribution imageProxy responses errs i"
    and "failed st' = failed st + (if errs ! i = None then 0 else 1)"
    and "errs ! i \<noteq> None \<Longrightarrow> i < length urls"
  using assms
  by (auto simp: source_step_def index_def contribution_def
      split: sum.splits option.splits if_splits dest: append_items_Inr)

lemma process_sources_Inr:
  assumes "process_sources urls imageProxy responses errs is st = Inr st'"
  shows "map Inr (videos st') =
           map Inr (videos st) @ concat (map (contribution imageProxy responses errs) is)"
    and "failed st' = failed st + length (filter (\<lambda>i. errs ! i \<noteq> None) is)"
  using assms
proof (induction "is" arbitrary: st)
  case Nil
  { case 1 then show ?case by simp }
  { case 2 then show ?case by simp }
next
  case (Cons i "is")
  { case 1
    then obtain st1 where s: "source_step urls imageProxy responses errs i st = Inr st1"
      and p: "process_sources urls imageProxy responses errs is st1 = Inr st'"
      by (auto split: sum.splits)
    show ?case using Cons.IH(1) [OF p] source_step_Inr(2) [OF s] by simp }
  { case 2
    then obtain st1 where s: "source_step urls imageProxy responses errs i st = Inr st1"
      and p: "process_sources urls imageProxy responses errs is st1 = Inr st'"
      by (auto split: sum.splits)
    show ?case using Cons.IH(2) [OF p] source_step_Inr(3) [OF s] by simp }
qed

lemma process_all_Inr:
  assumes "process_sources urls imageProxy responses errs [0..<length responses]
             \<lparr>videos = [], failed = 0\<rparr> = Inr st"
  shows "map Inr (videos st) = merged_entries imageProxy responses errs"
    and "failed st = failed_sources errs (length responses)"
  using process_sources_Inr [OF assms] by (simp_all add: merged_entries_def failed_sources_def)

text \<open>
  The end of the aggregation: when the pool reports no error of its own and the loop has
  run to its end, the failed counter is the number of set error slots, the collection
  holds the entries of the other sources, and what is returned is the no-content error
  for an empty collection, the sorted collection with the partial-content error and the
  counter when the counter is at least one, and the sorted collection alone otherwise.
\<close>

lemma outcome_classified:
  assumes pool: "workerPoolDo (build_requests NewRequest urls []) = (responses, errs, None)"
    and loop: "process_sources urls imageProxy responses errs [0..<length responses]
                 \<lparr>videos = [], failed = 0\<rparr> = Inr st"
  shows "failed st = failed_sources errs (length responses) \<and>
         map Inr (videos st) = merged_entries imageProxy responses errs \<and>
         fetchBilibiliChannelUploads NewRequest workerPoolDo urls tmpl shorts imageProxy =
           (if videos st = [] then Inr ([], Some NoContent)
            else if 1 \<le> failed st then Inr (sortByNewest (videos st), Some (PartialContent (failed st)))
            else Inr (sortByNewest (videos st), None))"
  using pool loop process_all_Inr [OF loop]
  by (simp add: fetchBilibiliChannelUploads_def Let_def)

lemma pool_error_no_content:
  assumes "workerPoolDo (build_requests NewRequest urls []) = (responses, errs, Some e)"
  shows "fetchBilibiliChannelUploads NewRequest workerPoolDo urls tmpl shorts imageProxy =
           Inr ([], Some (NoContentWrapped e))"
  using assms by (simp add: fetchBilibiliChannelUploads_def)

section \<open>The matcher and the pattern\<close>

lemma try_plus_None_iff:
  "try_plus as s k = None \<longleftrightarrow> (\<forall>j. 0 < j \<and> j \<le> k \<longrightarrow> match_atoms as (drop j s) = None)"
proof (induction k)
  case 0
  then show ?case by simp
next
  case (Suc k)
  show ?case
  proof (cases "match_atoms as (drop (Suc k) s)")
    case None
    have "(\<forall>j. 0 < j \<and> j \<le> Suc k \<longrightarrow> match_atoms as (drop j s) = None) \<longleftrightarrow>
          (\<forall>j. 0 < j \<and> j \<le> k \<longrightarrow> match_atoms as (drop j s) = None)"
      using None by (auto simp: le_Suc_eq)
    with None Suc show ?thesis by simp
  next
    case (Some segs)
    then show ?thesis by auto
  qed
qed

lemma try_plus_found:
  assumes "0 < j" "j \<le> k" "match_atoms as (drop j s) \<noteq> None"
  shows "try_plus as s k \<noteq> None"
proof
  assume "try_plus as s k = None"
  then have "\<forall>j. 0 < j \<and> j \<le> k \<longrightarrow> match_atoms as (drop j s) = None"
    by (simp only: try_plus_None_iff)
  with assms show False by simp
qed

lemma try_plus_Some:
  assumes "try_plus as s k = Some r"
  shows "\<exists>j segs. 0 < j \<and> j \<le> k \<and> r = take j s # segs \<and> match_atoms as (drop j s) = Some segs \<and>
           (\<forall>j'. j < j' \<and> j' \<le> k \<longrightarrow> match_atoms as (drop j' s) = None)"
  using assms
proof (induction k)
  case 0
  then show ?case by simp
next
  case (Suc k)
  show ?case
  proof (cases "match_atoms as (drop (Suc k) s)")
    case None
    with Suc.prems have "try_plus as s k = Some r" by simp
    from Suc.IH [OF this] obtain j segs where j: "0 < j" "j \<le> k" "r = take j s # segs"
      "match_atoms as (drop j s) = Some segs"
      "\<forall>j'. j < j' \<and> j' \<le> k \<longrightarrow> match_atoms as (drop j' s) = None"
      by blast
    have "\<forall>j'. j < j' \<and> j' \<le> Suc k \<longrightarrow> match_atoms as (drop j' s) = None"
      using j(5) None by (auto simp: le_Suc_eq)
    with j show ?thesis by (intro exI [of _ j] exI [of _ segs]) simp
  next
    case (Some segs)
    with Suc.prems have "r = take (Suc k) s # segs" by simp
    with Some show ?thesis by (intro exI [of _ "Suc k"] exI [of _ segs]) auto
  qed
qed

lemma takeWhile_length_ge:
  "c \<notin> set seg \<Longrightarrow> length seg \<le> length (takeWhile (\<lambda>x. x \<noteq> c) (seg @ rest))"
  by (induction seg) auto

lemma take_takeWhile_notin:
  "j \<le> length (takeWhile (\<lambda>x. x \<noteq> c) s) \<Longrightarrow> c \<notin> set (take j s)"
proof (induction s arbitrary: j)
  case Nil
  then show ?case by simp
next
  case (Cons x xs)
  then show ?case by (cases j) (auto split: if_splits)
qed

lemma match_atoms_sound:
  "match_atoms as s = Some segs \<Longrightarrow> list_all2 atom_ok as segs \<and> (\<exists>rest. s = concat segs @ rest)"
proof (induction as arbitrary: s segs)
  case Nil
  then show ?case by simp
next
  case (Cons a as)
  show ?case
  proof (cases a)
    case (Lit c)
    with Cons.prems obtain xs segs' where "s = c # xs" "segs = [c] # segs'" "match_atoms as xs = Some segs'"
      by (cases s) (auto split: if_splits)
    with Cons.IH [of xs segs'] Lit show ?thesis by auto
  next
    case (PlusNot c)
    with Cons.prems have "try_plus as s (length (takeWhile (\<lambda>x. x \<noteq> c) s)) = Some segs" by simp
    from try_plus_Some [OF this] obtain j segs' where j: "0 < j" "j \<le> length (takeWhile (\<lambda>x. x \<noteq> c) s)"
      "segs = take j s # segs'" "match_atoms as (drop j s) = Some segs'"
      by blast
    have "j \<le> length s" using j(2) length_takeWhile_le [of "\<lambda>x. x \<noteq> c" s] by linarith
    with j(1) have ne: "take j s \<noteq> []" by auto
    from Cons.IH [OF j(4)] obtain rest where r: "list_all2 atom_ok as segs'" "drop j s = concat segs' @ rest"
      by blast
    have c: "concat segs @ rest = s"
      unfolding j(3) by (simp add: r(2) [symmetric])
    have "atom_ok a (take j s)"
      using ne take_takeWhile_notin [OF j(2)] PlusNot by simp
    with r(1) have "list_all2 atom_ok (a # as) segs"
      unfolding j(3) by simp
    with c show ?thesis by blast
  qed
qed

lemma match_atoms_complete:
  "list_all2 atom_ok as segs \<Longrightarrow> match_atoms as (concat segs @ rest) \<noteq> None"
proof (induction as arbitrary: segs)
  case Nil
  then show ?case by simp
next
  case (Cons a as)
  then obtain seg segs' where segs: "segs = seg # segs'" "atom_ok a seg" "list_all2 atom_ok as segs'"
    by (auto simp: list_all2_Cons1)
  show ?case
  proof (cases a)
    case (Lit c)
    with segs Cons.IH [OF segs(3)] show ?thesis by auto
  next
    case (PlusNot c)
    with segs(2) have seg: "seg \<noteq> []" "c \<notin> set seg" by simp_all
    let ?s = "concat segs @ rest"
    have "?s = seg @ (concat segs' @ rest)" using segs(1) by simp
    then have "length seg \<le> length (takeWhile (\<lambda>x. x \<noteq> c) ?s)" "drop (length seg) ?s = concat segs' @ rest"
      using takeWhile_length_ge [OF seg(2)] by simp_all
    moreover have "0 < length seg" using seg(1) by simp
    moreover have "match_atoms as (concat segs' @ rest) \<noteq> None" by (rule Cons.IH [OF segs(3)])
    ultimately have "try_plus as ?s (length (takeWhile (\<lambda>x. x \<noteq> c) ?s)) \<noteq> None"
      by (intro try_plus_found [of "length seg"]) simp_all
    with PlusNot show ?thesis by simp
  qed
qed

lemma match_atoms_greedy:
  assumes m: "match_atoms (PlusNot c # as) s = Some (seg # segs)"
    and alt: "seg' \<noteq> []" "c \<notin> set seg'" "list_all2 atom_ok as segs'" "s = seg' @ concat segs' @ rest"
  shows "length seg' \<le> length seg"
proof -
  let ?n = "length (takeWhile (\<lambda>x. x \<noteq> c) s)"
  from m have "try_plus as s ?n = Some (seg # segs)" by simp
  from try_plus_Some [OF this] obtain j where j: "j \<le> ?n" "seg = take j s"
    "\<forall>j'. j < j' \<and> j' \<le> ?n \<longrightarrow> match_atoms as (drop j' s) = None"
    by blast
  have "?n \<le> length s" by (rule length_takeWhile_le)
  with j(1,2) have lj: "length seg = j" by simp
  have "length seg' \<le> ?n" using takeWhile_length_ge [OF alt(2)] alt(4) by simp
  moreover have "match_atoms as (drop (length seg') s) \<noteq> None"
    using match_atoms_complete [OF alt(3)] alt(4) by simp
  ultimately have "\<not> j < length seg'" using j(3) by auto
  with lj show ?thesis by simp
qed

lemma re_atoms:
  "re_prefix @ re_group @ re_suffix =
     [Lit CHR ''<'', Lit CHR ''i'', Lit CHR ''m'', Lit CHR ''g'', PlusNot CHR ''>'',
      Lit CHR ''s'', Lit CHR ''r'', Lit CHR ''c'', Lit CHR ''='', Lit dquote,
      PlusNot dquote, Lit dquote]"
  by (simp add: re_prefix_def re_group_def re_suffix_def)

lemma segs_shape:
  assumes "list_all2 atom_ok (re_prefix @ re_group @ re_suffix) segs"
  shows "\<exists>gap url. segs = [''<'', ''i'', ''m'', ''g'', gap, ''s'', ''r'', ''c'', ''='', [dquote], url, [dquote]]
           \<and> gap \<noteq> [] \<and> CHR ''>'' \<notin> set gap \<and> url \<noteq> [] \<and> dquote \<notin> set url"
  using assms unfolding re_atoms by (auto simp: list_all2_Cons1)

lemma tail_shape:
  assumes "url \<noteq> []" "dquote \<notin> set url"
  shows "list_all2 atom_ok
           [Lit CHR ''s'', Lit CHR ''r'', Lit CHR ''c'', Lit CHR ''='', Lit dquote, PlusNot dquote, Lit dquote]
           [''s'', ''r'', ''c'', ''='', [dquote], url, [dquote]]"
  using assms by simp

lemma img_src_submatch:
  assumes "img_src s gap url"
  shows "submatch s \<noteq> None"
proof -
  from assms obtain rest where s: "s = ''<img'' @ gap @ ''src='' @ [dquote] @ url @ [dquote] @ rest"
    and ok: "gap \<noteq> []" "CHR ''>'' \<notin> set gap" "url \<noteq> []" "dquote \<notin> set url"
    by (auto simp: img_src_def prefix_def)
  let ?segs = "[''<'', ''i'', ''m'', ''g'', gap, ''s'', ''r'', ''c'', ''='', [dquote], url, [dquote]]"
  have "list_all2 atom_ok (re_prefix @ re_group @ re_suffix) ?segs"
    unfolding re_atoms using ok by simp
  from match_atoms_complete [OF this, of rest]
  have "match_atoms (re_prefix @ re_group @ re_suffix) s \<noteq> None"
    unfolding s by simp
  then show ?thesis by (auto simp: submatch_def)
qed

lemma submatch_Some:
  assumes "submatch s = Some m"
  shows "\<exists>gap url. m = [''<img'' @ gap @ ''src='' @ [dquote] @ url @ [dquote], url] \<and> img_src s gap url \<and>
           (\<forall>gap' url'. img_src s gap' url' \<longrightarrow> length gap' \<le> length gap)"
proof -
  from assms obtain segs where ma: "match_atoms (re_prefix @ re_group @ re_suffix) s = Some segs"
    and m: "m = [concat segs, concat (take (length re_group) (drop (length re_prefix) segs))]"
    by (auto simp: submatch_def split: option.splits)
  from match_atoms_sound [OF ma] obtain rest where
    la: "list_all2 atom_ok (re_prefix @ re_group @ re_suffix) segs" and s: "s = concat segs @ rest"
    by blast
  from segs_shape [OF la] obtain gap url where
    segs: "segs = [''<'', ''i'', ''m'', ''g'', gap, ''s'', ''r'', ''c'', ''='', [dquote], url, [dquote]]"
    and ok: "gap \<noteq> []" "CHR ''>'' \<notin> set gap" "url \<noteq> []" "dquote \<notin> set url"
    by blast
  have m': "m = [''<img'' @ gap @ ''src='' @ [dquote] @ url @ [dquote], url]"
    unfolding m segs by (simp add: re_prefix_def re_group_def)
  have s': "s = ''<img'' @ gap @ ''src='' @ [dquote] @ url @ [dquote] @ rest"
    unfolding s segs by simp
  have isrc: "img_src s gap url"
    unfolding img_src_def prefix_def using ok s' by auto
  let ?tail = "[Lit CHR ''s'', Lit CHR ''r'', Lit CHR ''c'', Lit CHR ''='', Lit dquote, PlusNot dquote, Lit dquote]"
  let ?s1 = "gap @ ''src='' @ [dquote] @ url @ [dquote] @ rest"
  have g: "match_atoms (PlusNot CHR ''>'' # ?tail) ?s1 =
             Some (gap # [''s'', ''r'', ''c'', ''='', [dquote], url, [dquote]])"
    using ma unfolding re_atoms s' segs by (auto split: if_splits)
  have "length gap' \<le> length gap" if alt: "img_src s gap' url'" for gap' url'
  proof -
    from alt obtain rest' where
      a: "s = ''<img'' @ gap' @ ''src='' @ [dquote] @ url' @ [dquote] @ rest'"
      and ok': "gap' \<noteq> []" "CHR ''>'' \<notin> set gap'" "url' \<noteq> []" "dquote \<notin> set url'"
      by (auto simp: img_src_def prefix_def)
    from a s' have e: "?s1 = gap' @ concat [''s'', ''r'', ''c'', ''='', [dquote], url', [dquote]] @ rest'"
      by simp
    show ?thesis
      by (rule match_atoms_greedy [OF g ok'(1,2) tail_shape [OF ok'(3,4)] e])
  qed
  with m' isrc show ?thesis by blast
qed

lemma submatch_Nil: "submatch [] = None"
  by (simp add: submatch_def re_atoms)

lemma find_none:
  "FindAllStringSubmatch s = [] \<Longrightarrow> submatch (drop p s) = None"
proof (induction s arbitrary: p)
  case Nil
  then show ?case by (simp add: submatch_Nil)
next
  case (Cons x xs)
  then have n: "submatch (x # xs) = None" and r: "FindAllStringSubmatch xs = []"
    by (auto split: option.splits)
  show ?case
  proof (cases p)
    case 0
    with n show ?thesis by simp
  next
    case (Suc p')
    with Cons.IH [OF r, of p'] show ?thesis by simp
  qed
qed

lemma find_first:
  "FindAllStringSubmatch s = m # ms \<Longrightarrow>
   \<exists>p. submatch (drop p s) = Some m \<and> (\<forall>p'<p. submatch (drop p' s) = None)"
proof (induction s)
  case Nil
  then show ?case by (simp add: submatch_Nil)
next
  case (Cons x xs)
  show ?case
  proof (cases "submatch (x # xs)")
    case None
    with Cons.prems have "FindAllStringSubmatch xs = m # ms" by simp
    from Cons.IH [OF this] obtain p where p: "submatch (drop p xs) = Some m"
      "\<forall>p'<p. submatch (drop p' xs) = None" by blast
    have "\<forall>p'<Suc p. submatch (drop p' (x # xs)) = None"
    proof (intro allI impI)
      fix p' assume "p' < Suc p"
      then show "submatch (drop p' (x # xs)) = None"
        using None p(2) by (cases p') simp_all
    qed
    with p(1) show ?thesis by (intro exI [of _ "Suc p"]) simp
  next
    case (Some m')
    with Cons.prems have "m' = m" by simp
    with Some show ?thesis by (intro exI [of _ 0]) simp
  qed
qed

lemma collect_imageURLs_first:
  "\<exists>us. collect_imageURLs ms (u # acc) = u # us"
  by (induction ms arbitrary: acc) simp_all

lemma make_video_no_match:
  assumes "FindAllStringSubmatch (ContentHTML v) = []"
  shows "make_video imageProxy v = Inl (IndexOutOfRange 0 0)"
  using assms by (simp add: make_video_def index_def)

lemma make_video_match:
  assumes "FindAllStringSubmatch (ContentHTML v) = [full, url] # ms"
  shows "\<exists>e. make_video imageProxy v = Inr e \<and> ThumbnailUrl e = imageProxy @ url"
proof -
  obtain us where "collect_imageURLs ms [url] = url # us"
    using collect_imageURLs_first [of ms url "[]"] by blast
  with assms show ?thesis by (simp add: make_video_def index_def)
qed

lemma first_image_match:
  assumes "img_src (drop q (ContentHTML v)) gap0 url0"
  shows "\<exists>e p gap url. make_video imageProxy v = Inr e \<and> ThumbnailUrl e = imageProxy @ url \<and>
           img_src (drop p (ContentHTML v)) gap url \<and>
           (\<forall>p' gap' url'. img_src (drop p' (ContentHTML v)) gap' url' \<longrightarrow>
              p \<le> p' \<and> (p' = p \<longrightarrow> length gap' \<le> length gap))"
proof -
  let ?body = "ContentHTML v"
  have "submatch (drop q ?body) \<noteq> None" by (rule img_src_submatch [OF assms])
  then have "FindAllStringSubmatch ?body \<noteq> []" using find_none [of ?body q] by auto
  then obtain m ms where f: "FindAllStringSubmatch ?body = m # ms" by (cases "FindAllStringSubmatch ?body") auto
  from find_first [OF f] obtain p where p: "submatch (drop p ?body) = Some m"
    "\<forall>p'<p. submatch (drop p' ?body) = None" by blast
  from submatch_Some [OF p(1)] obtain gap url where
    m: "m = [''<img'' @ gap @ ''src='' @ [dquote] @ url @ [dquote], url]"
    and isrc: "img_src (drop p ?body) gap url"
    and gr: "\<forall>gap' url'. img_src (drop p ?body) gap' url' \<longrightarrow> length gap' \<le> length gap"
    by blast
  from make_video_match [OF f [unfolded m]] obtain e where
    e: "make_video imageProxy v = Inr e" "ThumbnailUrl e = imageProxy @ url" by blast
  have least: "\<forall>p' gap' url'. img_src (drop p' ?body) gap' url' \<longrightarrow>
                 p \<le> p' \<and> (p' = p \<longrightarrow> length gap' \<le> length gap)"
  proof (intro allI impI)
    fix p' gap' url'
    assume alt: "img_src (drop p' ?body) gap' url'"
    have ne: "submatch (drop p' ?body) \<noteq> None" by (rule img_src_submatch [OF alt])
    have "\<not> p' < p"
    proof
      assume "p' < p"
      with p(2) have "submatch (drop p' ?body) = None" by simp
      with ne show False by simp
    qed
    moreover have "length gap' \<le> length gap" if "p' = p"
      using gr [rule_format, of gap' url'] alt that by simp
    ultimately show "p \<le> p' \<and> (p' = p \<longrightarrow> length gap' \<le> length gap)" by simp
  qed
  have "make_video imageProxy v = Inr e \<and> ThumbnailUrl e = imageProxy @ url \<and>
        img_src (drop p ?body) gap url \<and>
        (\<forall>p' gap' url'. img_src (drop p' ?body) gap' url' \<longrightarrow>
           p \<le> p' \<and> (p' = p \<longrightarrow> length gap' \<le> length gap))"
    by (intro conjI) (rule e(1), rule e(2), rule isrc, rule least)
  then show ?thesis
    by - (rule exI [of _ e], rule exI [of _ p], rule exI [of _ gap], rule exI [of _ url])
qed

lemma make_video_panics_iff:
  "make_video imageProxy v = Inl (IndexOutOfRange 0 0) \<longleftrightarrow>
   (\<forall>p gap url. \<not> img_src (drop p (ContentHTML v)) gap url)"
proof
  assume l: "make_video imageProxy v = Inl (IndexOutOfRange 0 0)"
  show "\<forall>p gap url. \<not> img_src (drop p (ContentHTML v)) gap url"
  proof (intro allI notI)
    fix p gap url assume "img_src (drop p (ContentHTML v)) gap url"
    from first_image_match [OF this, of imageProxy]
    obtain e where "make_video imageProxy v = Inr e" by (elim exE conjE)
    with l show False by simp
  qed
next
  assume r: "\<forall>p gap url. \<not> img_src (drop p (ContentHTML v)) gap url"
  have "FindAllStringSubmatch (ContentHTML v) = []"
  proof (cases "FindAllStringSubmatch (ContentHTML v)")
    case Nil then show ?thesis .
  next
    case (Cons m ms)
    from find_first [OF this] obtain p where "submatch (drop p (ContentHTML v)) = Some m" by blast
    from submatch_Some [OF this] r show ?thesis by blast
  qed
  then show "make_video imageProxy v = Inl (IndexOutOfRange 0 0)" by (rule make_video_no_match)
qed

text \<open>
  When the loop over the sources runs to its end: the slices of the pool are as long as
  the pool promises, and every item of a source without error has an image in its body.
\<close>

lemma append_items_total:
  assumes "\<forall>v\<in>set items. \<exists>q gap url. img_src (drop q (ContentHTML v)) gap url"
  shows "\<exists>vs. append_items imageProxy items acc = Inr vs"
  using assms
proof (induction items arbitrary: acc)
  case Nil
  then show ?case by simp
next
  case (Cons v items)
  then obtain q gap url where "img_src (drop q (ContentHTML v)) gap url" by auto
  from first_image_match [OF this, of imageProxy]
  obtain e where "make_video imageProxy v = Inr e" by (elim exE conjE)
  moreover have "\<exists>vs. append_items imageProxy items (acc @ [e]) = Inr vs"
    using Cons.prems by (intro Cons.IH) simp
  ultimately show ?case by simp
qed

lemma process_sources_total:
  assumes "\<forall>i\<in>set is. i < length errs \<and> i < length responses \<and>
             (errs ! i \<noteq> None \<longrightarrow> i < length urls) \<and>
             (errs ! i = None \<longrightarrow>
                (\<forall>v\<in>set (Items (responses ! i)). \<exists>q gap url. img_src (drop q (ContentHTML v)) gap url))"
  shows "\<exists>st'. process_sources urls imageProxy responses errs is st = Inr st'"
  using assms
proof (induction "is" arbitrary: st)
  case Nil
  then show ?case by simp
next
  case (Cons i "is")
  have i: "i < length errs" "i < length responses" "errs ! i \<noteq> None \<longrightarrow> i < length urls"
    "errs ! i = None \<longrightarrow>
       (\<forall>v\<in>set (Items (responses ! i)). \<exists>q gap url. img_src (drop q (ContentHTML v)) gap url)"
    using Cons.prems by simp_all
  have "\<exists>st1. source_step urls imageProxy responses errs i st = Inr st1"
  proof (cases "errs ! i")
    case None
    with i(4) obtain vs where "append_items imageProxy (Items (responses ! i)) (videos st) = Inr vs"
      using append_items_total [of "Items (responses ! i)" imageProxy "videos st"] by auto
    with None i(1,2) show ?thesis by (simp add: source_step_def index_def)
  next
    case (Some e)
    with i(1,3) show ?thesis by (simp add: source_step_def index_def)
  qed
  then obtain st1 where "source_step urls imageProxy responses errs i st = Inr st1" by (elim exE)
  moreover have "\<exists>st'. process_sources urls imageProxy responses errs is st1 = Inr st'"
    using Cons.prems by (intro Cons.IH) simp
  ultimately show ?case by simp
qed

section \<open>The run with three sources, evaluated\<close>

lemmas pattern_defs = submatch_def re_prefix_def re_group_def re_suffix_def dquote_def img_tag_def

lemma scenario_make_video_a1:
  "make_video ''//wsrv.nl/?url='' (scenario_item ''a1'' (img_tag ''a1.jpg'' @ img_tag ''x.jpg'') 10)
   = Inr (scenario_video ''a1'' 10)"
  by (simp add: make_video_def scenario_item_def scenario_video_def pattern_defs index_def
      strings_Join_def)

lemma scenario_make_video_a2:
  "make_video ''//wsrv.nl/?url='' (scenario_item ''a2'' (''<p>'' @ img_tag ''a2.jpg'') 9)
   = Inr (scenario_video ''a2'' 9)"
  by (simp add: make_video_def scenario_item_def scenario_video_def pattern_defs index_def
      strings_Join_def)

lemma scenario_make_video_c1:
  "make_video ''//wsrv.nl/?url='' (scenario_item ''c1'' (img_tag ''c1.jpg'') 11)
   = Inr (scenario_video ''c1'' 11)"
  by (simp add: make_video_def scenario_item_def scenario_video_def pattern_defs index_def
      strings_Join_def)

lemma scenario_fetch:
  "fetchBilibiliChannelUploads scenario_NewRequest scenario_pool scenario_urls [] False ''//wsrv.nl/?url=''
   = Inr ([scenario_video ''c1'' 11, scenario_video ''a1'' 10, scenario_video ''a2'' 9],
          Some (PartialContent 1))"
  by code_simp

lemma scenario_loop:
  "process_sources scenario_urls ''//wsrv.nl/?url='' scenario_responses scenario_errs
     [0..<length scenario_responses] \<lparr>videos = [], failed = 0\<rparr>
   = Inr \<lparr>videos = [scenario_video ''a1'' 10, scenario_video ''a2'' 9, scenario_video ''c1'' 11],
          failed = 1\<rparr>"
  by code_simp

lemma two_empty_sources_no_content:
  "fetchBilibiliChannelUploads scenario_NewRequest empty_pool [''https://hub/a'', ''https://hub/c'']
     [] False ''//wsrv.nl/?url='' = Inr ([], Some NoContent)"
  by code_simp

lemma scenario_initialize:
  "initialize scenario_widget =
     scenario_widget\<lparr>Limit := 2, CollapseAfterRows := 4, CollapseAfter := 7,
       ImageProxy := ''//wsrv.nl/?url=''\<rparr>"
  by (simp add: initialize_def scenario_widget_def)

lemma initialize_fields:
  "Limit (initialize w) = (if Limit w \<le> 0 then 25 else Limit w)"
  "RSSHubUrls (initialize w) = RSSHubUrls w"
  "VideoUrlTemplate (initialize w) = VideoUrlTemplate w"
  "IncludeShorts (initialize w) = IncludeShorts w"
  "ImageProxy (initialize w) = (if ImageProxy w = [] then ''//wsrv.nl/?url='' else ImageProxy w)"
  by (simp_all add: initialize_def Let_def)

section \<open>The claims\<close>

text \<open>
  C1. The claim gives every run of the aggregation one of three outcomes. The run with
  one source that yields an entry, one that failed and one whose item has no image in its
  body ends in the panic of \<^verbatim>\<open>imageURLs[0]\<close>: it returns neither a collection nor
  one of the two errors. (For the runs in which the loop over the sources comes to its
  end, \<open>outcome_classified\<close> above gives the three outcomes as the claim has them.)
\<close>

theorem mixed_sources_panic:
  "fetchBilibiliChannelUploads scenario_NewRequest mixed_pool mixed_urls [] False ''//wsrv.nl/?url=''
     = Inl (IndexOutOfRange 0 0)"
  by code_simp

text \<open>
  C2. Whatever collection the aggregation returns is ordered by publish time, newest
  first: no entry is followed by one with a later instant. This covers the non-empty
  collections returned with no error and with the partial-content error.
\<close>

theorem fetch_sorted:
  assumes "fetchBilibiliChannelUploads NewRequest workerPoolDo urls tmpl shorts imageProxy = Inr (vs, e)"
  shows "sorted_wrt (\<lambda>a b. instant (TimePosted b) \<le> instant (TimePosted a)) vs"
  using assms
  by (auto simp: fetchBilibiliChannelUploads_def Let_def sortByNewest_sorted
      split: prod.splits option.splits sum.splits if_splits)

theorem fetch_sorted_witness:
  "fetchBilibiliChannelUploads scenario_NewRequest scenario_pool scenario_urls [] False ''//wsrv.nl/?url=''
     = Inr ([scenario_video ''c1'' 11, scenario_video ''a1'' 10, scenario_video ''a2'' 9],
            Some (PartialContent 1)) \<and>
   sorted_wrt (\<lambda>a b. instant (TimePosted b) \<le> instant (TimePosted a))
     [scenario_video ''c1'' 11, scenario_video ''a1'' 10, scenario_video ''a2'' 9]"
  using fetch_sorted [OF scenario_fetch] scenario_fetch by simp

text \<open>
  C3. The claim asks that an item without image in its body still gives an entry, or is
  handled. The code indexes the empty list of image URLs: for one source whose only item
  has the body \<^verbatim>\<open><p>no image</p>\<close> the aggregation ends in the panic of
  \<^verbatim>\<open>imageURLs[0]\<close> and returns nothing.
\<close>

theorem item_without_image_panics:
  "fetchBilibiliChannelUploads scenario_NewRequest no_image_pool [''https://hub/n''] [] False
     ''//wsrv.nl/?url='' = Inl (IndexOutOfRange 0 0)"
  by code_simp

text \<open>
  C4, as the code has it. An image-tag source attribute is an occurrence of the pattern:
  \<^verbatim>\<open><img\<close>, one or more characters other than \<^verbatim>\<open>>\<close>, \<^verbatim>\<open>src="\<close>, a non-empty URL
  without double quote, and a double quote. For an item whose body holds such an
  occurrence somewhere, an entry is made and its thumbnail is the image-proxy prefix
  followed, as it is, by the URL of the first occurrence in document order: the one that
  starts at the least position and, among those starting there, the one with the longest
  run before \<^verbatim>\<open>src="\<close>. Of two occurrences that start at different positions the
  earlier one gives the URL.
\<close>

theorem thumbnail_first_image:
  assumes "img_src (drop q (ContentHTML v)) gap0 url0"
  shows "\<exists>e p gap url. make_video imageProxy v = Inr e \<and> ThumbnailUrl e = imageProxy @ url \<and>
           img_src (drop p (ContentHTML v)) gap url \<and>
           (\<forall>p' gap' url'. img_src (drop p' (ContentHTML v)) gap' url' \<longrightarrow>
              p \<le> p' \<and> (p' = p \<longrightarrow> length gap' \<le> length gap))"
  by (rule first_image_match [OF assms])

theorem thumbnail_first_image_witness:
  "img_src (drop 0 (ContentHTML (scenario_item ''a1'' (img_tag ''a1.jpg'' @ img_tag ''x.jpg'') 10)))
     '' '' ''a1.jpg'' \<and>
   (\<exists>e. make_video ''//wsrv.nl/?url='' (scenario_item ''a1'' (img_tag ''a1.jpg'' @ img_tag ''x.jpg'') 10)
          = Inr e \<and>
        ThumbnailUrl e = ''//wsrv.nl/?url=a1.jpg'')"
proof -
  have h: "img_src (drop 0 (ContentHTML (scenario_item ''a1'' (img_tag ''a1.jpg'' @ img_tag ''x.jpg'') 10)))
     '' '' ''a1.jpg''"
    by (simp add: img_src_def scenario_item_def img_tag_def dquote_def)
  from thumbnail_first_image [OF h, of "''//wsrv.nl/?url=''"] h scenario_make_video_a1
  show ?thesis by (simp add: scenario_video_def)
qed

text \<open>
  C4, as the claim words it, fails on image tags that the pattern reads otherwise. In
  the body of two tags \<^verbatim>\<open><img alt=">" src="x.jpg"><img src="y.jpg">\<close> the run after
  \<^verbatim>\<open><img\<close> ends at the \<^verbatim>\<open>>\<close> inside the first tag's \<^verbatim>\<open>alt\<close>, so the first tag is
  no occurrence and the thumbnail is made from the second tag's URL.
\<close>

theorem second_tag_selected:
  "map_sum id ThumbnailUrl (make_video ''//wsrv.nl/?url='' (scenario_item ''g1'' two_tags_body 7))
     = Inr ''//wsrv.nl/?url=y.jpg'' \<and>
   map_sum id ThumbnailUrl (make_video ''//wsrv.nl/?url='' (scenario_item ''g1'' two_tags_body 7))
     \<noteq> Inr ''//wsrv.nl/?url=x.jpg''"
  by code_simp

text \<open>
  Within one tag the longest run wins: a \<^verbatim>\<open>data-src\<close> attribute after the
  \<^verbatim>\<open>src\<close> attribute gives the thumbnail.
\<close>

lemma lazy_attribute_selected:
  "map_sum id ThumbnailUrl (make_video ''//wsrv.nl/?url='' (scenario_item ''g2'' lazy_tag_body 7))
     = Inr ''//wsrv.nl/?url=lazy.jpg''"
  by code_simp

text \<open>
  C5. Whenever the aggregation returns, the returned entries are, up to order, exactly
  what the sources contribute: all the entries of each source whose error slot is empty
  and none of a source whose error slot is set (none at all when the pool itself failed).
  Their number is at most the number of raw items of the sources without error.
\<close>

theorem entries_all_or_none:
  assumes pool: "workerPoolDo (build_requests NewRequest urls []) = (responses, errs, err)"
    and ret: "fetchBilibiliChannelUploads NewRequest workerPoolDo urls tmpl shorts imageProxy = Inr (vs, e)"
  shows "image_mset Inr (mset vs) =
           (if err = None then mset (merged_entries imageProxy responses errs) else {#}) \<and>
         length vs \<le> (\<Sum>i\<leftarrow>[0..<length responses].
                          if errs ! i = None then length (Items (responses ! i)) else 0)"
proof (cases err)
  case (Some x)
  with pool ret show ?thesis by (simp add: fetchBilibiliChannelUploads_def)
next
  case None
  with pool ret obtain st where
    loop: "process_sources urls imageProxy responses errs [0..<length responses]
                 \<lparr>videos = [], failed = 0\<rparr> = Inr st"
    by (auto simp: fetchBilibiliChannelUploads_def Let_def split: sum.splits)
  from pool ret None loop have vs: "mset vs = mset (videos st)"
    by (auto simp: fetchBilibiliChannelUploads_def Let_def sortByNewest_mset split: if_splits)
  have m: "map Inr (videos st) = merged_entries imageProxy responses errs"
    by (rule process_all_Inr [OF loop])
  have 1: "image_mset Inr (mset vs) = mset (merged_entries imageProxy responses errs)"
    unfolding m [symmetric] using vs by simp
  have "length vs = length (map Inr (videos st) :: (panic + bilibiliVideo) list)"
    using vs by (metis size_mset length_map)
  also have "\<dots> = length (merged_entries imageProxy responses errs)"
    using m by simp
  also have "\<dots> = (\<Sum>i\<leftarrow>[0..<length responses].
                          if errs ! i = None then length (Items (responses ! i)) else 0)"
    by (simp add: merged_entries_def length_concat comp_def contribution_def if_distrib cong: if_cong)
  finally show ?thesis using 1 None by simp
qed

theorem entries_all_or_none_witness:
  "scenario_pool (build_requests scenario_NewRequest scenario_urls [])
     = (scenario_responses, scenario_errs, None) \<and>
   fetchBilibiliChannelUploads scenario_NewRequest scenario_pool scenario_urls [] False ''//wsrv.nl/?url=''
     = Inr ([scenario_video ''c1'' 11, scenario_video ''a1'' 10, scenario_video ''a2'' 9],
            Some (PartialContent 1)) \<and>
   length [scenario_video ''c1'' 11, scenario_video ''a1'' 10, scenario_video ''a2'' 9]
     \<le> (\<Sum>i\<leftarrow>[0..<length scenario_responses].
           if scenario_errs ! i = None then length (Items (scenario_responses ! i)) else 0)"
proof -
  have p: "scenario_pool (build_requests scenario_NewRequest scenario_urls [])
     = (scenario_responses, scenario_errs, None)"
    by (simp add: scenario_pool_def)
  from entries_all_or_none [OF p scenario_fetch] p scenario_fetch
  show ?thesis by simp
qed

text \<open>
  C6. The include-shorts flag does not influence the aggregation: with all other
  arguments and the fetch results fixed, both values of the flag give the same result.
\<close>

theorem includeShorts_ignored:
  "fetchBilibiliChannelUploads NewRequest workerPoolDo urls tmpl True imageProxy =
   fetchBilibiliChannelUploads NewRequest workerPoolDo urls tmpl False imageProxy"
  by (simp add: fetchBilibiliChannelUploads_def)

text \<open>
  C7. The author string of the entry made from an item is the item's author names in
  their order, separated by a comma and a space; with no author it is the empty string.
\<close>

theorem author_joined:
  assumes "make_video imageProxy v = Inr e"
  shows "Author e =
     (case Authors v of
        [] \<Rightarrow> []
      | a # as \<Rightarrow> Name a @ concat (map (\<lambda>b. '', '' @ Name b) as))"
proof (cases "Authors v")
  case Nil
  with make_video_fields(5) [OF assms] show ?thesis by (simp add: strings_Join_def)
next
  case (Cons a as)
  with make_video_fields(5) [OF assms] show ?thesis by (simp add: strings_Join_Cons comp_def)
qed

theorem author_joined_witness:
  "make_video ''//wsrv.nl/?url='' (scenario_item ''a1'' (img_tag ''a1.jpg'' @ img_tag ''x.jpg'') 10)
     = Inr (scenario_video ''a1'' 10) \<and>
   Author (scenario_video ''a1'' 10) = ''Ann, Bob''"
  using author_joined [OF scenario_make_video_a1] scenario_make_video_a1
  by (simp add: scenario_video_def)

text \<open>
  C8. The entry made from an item has the item's title and publish time, and the item's
  URL both as its link and as its author link.
\<close>

theorem entry_carries_item_fields:
  assumes "make_video imageProxy v = Inr e"
  shows "VideoTitle e = Title v \<and> TimePosted e = DatePublished v \<and> Url e = URL v \<and> AuthorUrl e = URL v"
  using make_video_fields [OF assms] by simp

theorem entry_carries_item_fields_witness:
  "make_video ''//wsrv.nl/?url='' (scenario_item ''c1'' (img_tag ''c1.jpg'') 11)
     = Inr (scenario_video ''c1'' 11) \<and>
   VideoTitle (scenario_video ''c1'' 11) = ''c1'' \<and>
   TimePosted (scenario_video ''c1'' 11) = \<lparr>instant = 11, zone = ''UTC''\<rparr> \<and>
   Url (scenario_video ''c1'' 11) = ''https://www.bilibili.com/video/c1'' \<and>
   AuthorUrl (scenario_video ''c1'' 11) = ''https://www.bilibili.com/video/c1''"
  using entry_carries_item_fields [OF scenario_make_video_c1] scenario_make_video_c1
  by (simp add: scenario_video_def)




text \<open>
  C10. After \<^verbatim>\<open>initialize\<close> the limit is at least one, a value of zero or less
  having been replaced by 25; an update of the initialised widget that continues after
  the fetch stores the first \<open>Limit\<close> entries of the sorted collection, at most
  \<open>Limit\<close> of them.
\<close>

theorem limit_caps_videos:
  "Limit (initialize w) = (if Limit w \<le> 0 then 25 else Limit w) \<and>
   1 \<le> Limit (initialize w) \<and>
   (fetchBilibiliChannelUploads NewRequest workerPoolDo (RSSHubUrls (initialize w))
      (VideoUrlTemplate (initialize w)) (IncludeShorts (initialize w)) (ImageProxy (initialize w))
      = Inr (uploads, err) \<and> canContinue err \<longrightarrow>
    update NewRequest workerPoolDo canContinue (initialize w) =
      Inr ((initialize w)\<lparr>Videos := take (nat (Limit (initialize w))) uploads\<rparr>) \<and>
    int (length (take (nat (Limit (initialize w))) uploads)) \<le> Limit (initialize w))"
proof -
  have l: "Limit (initialize w) = (if Limit w \<le> 0 then 25 else Limit w)"
    by (rule initialize_fields)
  then have pos: "1 \<le> Limit (initialize w)" by simp
  have "update NewRequest workerPoolDo canContinue (initialize w) =
      Inr ((initialize w)\<lparr>Videos := take (nat (Limit (initialize w))) uploads\<rparr>)"
    if "fetchBilibiliChannelUploads NewRequest workerPoolDo (RSSHubUrls (initialize w))
      (VideoUrlTemplate (initialize w)) (IncludeShorts (initialize w)) (ImageProxy (initialize w))
      = Inr (uploads, err)" "canContinue err"
    using that pos by (simp add: update_def slice_to_def)
  moreover have "int (length (take (nat (Limit (initialize w))) uploads)) \<le> Limit (initialize w)"
    using pos by simp
  ultimately show ?thesis using l pos by blast
qed

theorem limit_caps_videos_witness:
  "fetchBilibiliChannelUploads scenario_NewRequest scenario_pool (RSSHubUrls (initialize scenario_widget))
      (VideoUrlTemplate (initialize scenario_widget)) (IncludeShorts (initialize scenario_widget))
      (ImageProxy (initialize scenario_widget))
     = Inr ([scenario_video ''c1'' 11, scenario_video ''a1'' 10, scenario_video ''a2'' 9],
            Some (PartialContent 1)) \<and>
   scenario_canContinue (Some (PartialContent 1)) \<and>
   Videos (projr (update scenario_NewRequest scenario_pool scenario_canContinue (initialize scenario_widget)))
     = [scenario_video ''c1'' 11, scenario_video ''a1'' 10]"
proof -
  have f: "fetchBilibiliChannelUploads scenario_NewRequest scenario_pool (RSSHubUrls (initialize scenario_widget))
      (VideoUrlTemplate (initialize scenario_widget)) (IncludeShorts (initialize scenario_widget))
      (ImageProxy (initialize scenario_widget))
     = Inr ([scenario_video ''c1'' 11, scenario_video ''a1'' 10, scenario_video ''a2'' 9],
            Some (PartialContent 1))"
    using scenario_fetch by (simp add: initialize_fields scenario_widget_def)
  have c: "scenario_canContinue (Some (PartialContent 1))"
    by (simp add: scenario_canContinue_def)
  have "Limit (initialize scenario_widget) = 2"
    by (simp add: initialize_fields scenario_widget_def)
  with limit_caps_videos [of scenario_widget scenario_NewRequest scenario_pool _ _ scenario_canContinue] f c
  show ?thesis by simp
qed

end
